theory Spec2Isabelle
  imports Main "HOL-Library.Word"
begin

section \<open>Data model (asn1.go)\<close>

text \<open>
  An object identifier is the asn1 package's \<^verbatim>\<open>Oid\<close>, a slice of unsigned integers.
\<close>

type_synonym Oid = "nat list"

type_synonym bytes = "8 word list"

text \<open>
  \<^verbatim>\<open>Variable.Value\<close> is an \<^verbatim>\<open>interface{}\<close>. The constructors are the nil interface and the
  types registered for the choice \<^verbatim>\<open>val\<close> in \<^verbatim>\<open>Asn1Context\<close>.
\<close>

datatype val =
    NilValue
  | NullValue
  | IntValue int
  | StringValue string
  | OidValue Oid
  | IpAddressValue "8 word" "8 word" "8 word" "8 word"
  | Counter32Value "32 word"
  | Unsigned32Value "32 word"
  | TimeTicksValue "32 word"
  | OpaqueValue bytes
  | Counter64Value "64 word"
  | NoSuchObjectValue
  | NoSuchInstanceValue
  | EndOfMibViewValue

text \<open>The error-status constants.\<close>

definition NoError :: int where [simp]: "NoError = 0"
definition TooBig :: int where [simp]: "TooBig = 1"
definition NoSuchName :: int where [simp]: "NoSuchName = 2"
definition BadValue :: int where [simp]: "BadValue = 3"
definition ReadOnly :: int where [simp]: "ReadOnly = 4"
definition GenErr :: int where [simp]: "GenErr = 5"
definition NoAccess :: int where [simp]: "NoAccess = 6"
definition WrongType :: int where [simp]: "WrongType = 7"
definition WrongLength :: int where [simp]: "WrongLength = 8"
definition WrongEncoding :: int where [simp]: "WrongEncoding = 9"
definition WrongValue :: int where [simp]: "WrongValue = 10"
definition NoCreation :: int where [simp]: "NoCreation = 11"
definition InconsistentValue :: int where [simp]: "InconsistentValue = 12"
definition ResourceUnavailable :: int where [simp]: "ResourceUnavailable = 13"
definition CommitFailed :: int where [simp]: "CommitFailed = 14"
definition UndoFailed :: int where [simp]: "UndoFailed = 15"
definition AuthorizationError :: int where [simp]: "AuthorizationError = 16"
definition NotWritable :: int where [simp]: "NotWritable = 17"
definition InconsistentName :: int where [simp]: "InconsistentName = 18"

record Variable =
  Name :: Oid
  Value :: val

text \<open>
  \<^verbatim>\<open>Pdu\<close>; the field \<^verbatim>\<open>Id\<close> is written \<open>Id'\<close>. Go's \<^verbatim>\<open>int\<close> is modelled by \<open>int\<close>: the only
  arithmetic on it is \<^verbatim>\<open>i + 1\<close> for a slice index \<^verbatim>\<open>i\<close>, which cannot overflow.
\<close>

record Pdu =
  Id' :: int
  ErrorStatus :: int
  ErrorIndex :: int
  Variables :: "Variable list"

record BulkPdu =
  BulkId :: int
  NonRepeaters :: int
  MaxRepetitions :: int
  BulkVariables :: "Variable list"

record SnmpV1Trap =
  Enterprise :: Oid
  AgentAddr :: val
  GenericTrap :: int
  SpecificTrap :: int
  Timestamp :: "32 word"
  TrapVariables :: "Variable list"

text \<open>
  \<^verbatim>\<open>Message.Pdu\<close> is an \<^verbatim>\<open>interface{}\<close> filled by the choice \<^verbatim>\<open>pdu\<close>: one of the eight PDU
  types, or nothing at all.
\<close>

datatype PduChoice =
    GetRequestPdu Pdu
  | GetNextRequestPdu Pdu
  | GetResponsePdu Pdu
  | SetRequestPdu Pdu
  | SnmpV1TrapPdu SnmpV1Trap
  | GetBulkRequestPdu BulkPdu
  | InformRequestPdu Pdu
  | SnmpV2TrapPdu Pdu
  | NilPdu

record Message =
  Version :: int
  Community :: string
  Pdu :: PduChoice

section \<open>Errors\<close>

text \<open>
  A Go \<^verbatim>\<open>error\<close> is either the package's own \<^verbatim>\<open>Error\<close> struct, which carries a status, or
  any other error value (what \<^verbatim>\<open>fmt.Errorf\<close> builds, for one). The text of a message is
  kept as the format string with its arguments.
\<close>

datatype fmtarg = ArgOid Oid | ArgInt int | ArgString string | ArgPdu PduChoice

datatype message = Sprintf string "fmtarg list"

datatype err =
    Error (Status: int) (Message: message)
  | OtherError message

definition Errorf :: "int \<Rightarrow> string \<Rightarrow> fmtarg list \<Rightarrow> err" where
  "Errorf status format values = Error status (Sprintf format values)"

definition fmt_Errorf :: "string \<Rightarrow> fmtarg list \<Rightarrow> err" where
  "fmt_Errorf format values = OtherError (Sprintf format values)"

section \<open>The agent\<close>

text \<open>
  A getter or a setter is any Go function: it may read and change state outside the agent
  (a clock, a variable it closes over). That state is the type \<open>'s\<close>, passed in and
  returned. A getter returns a value and an error, a setter an error only; \<open>None\<close> is the
  nil error.
\<close>

type_synonym 's Getter = "Oid \<Rightarrow> 's \<Rightarrow> (val \<times> err option) \<times> 's"

type_synonym 's Setter = "Oid \<Rightarrow> val \<Rightarrow> 's \<Rightarrow> err option \<times> 's"

text \<open>
  \<^verbatim>\<open>managedObject\<close>; the field \<^verbatim>\<open>set\<close> is written \<open>set'\<close>. The field \<^verbatim>\<open>typ\<close> is nil in every
  object the agent builds and is never read, so it is left out.
\<close>

record 's managedObject =
  oid :: Oid
  get :: "'s Getter"
  set' :: "'s Setter"

text \<open>
  \<^verbatim>\<open>Agent\<close>; the fields \<^verbatim>\<open>public\<close> and \<^verbatim>\<open>private\<close> are written \<open>public'\<close> and \<open>private'\<close>.
  The logger and the asn1 context take no part in what is returned and are left out.
\<close>

record 's Agent =
  handlers :: "'s managedObject list"
  public' :: string
  private' :: string

definition NewAgent :: "'s Agent" where
  "NewAgent = \<lparr>handlers = [], public' = ''public'', private' = ''private''\<rparr>"

definition SetCommunities :: "'s Agent \<Rightarrow> string \<Rightarrow> string \<Rightarrow> 's Agent" where
  "SetCommunities a pub priv = a\<lparr>public' := pub, private' := priv\<rparr>"

text \<open>\<^verbatim>\<open>checkCommunity\<close> returns the pair \<^verbatim>\<open>(rw, err)\<close> as the Go function does.\<close>

definition checkCommunity :: "'s Agent \<Rightarrow> string \<Rightarrow> bool \<times> err option" where
  "checkCommunity a community =
     (if community \<noteq> public' a \<and> community \<noteq> private' a
      then (False, Some (fmt_Errorf ''invalid community \"%s\"'' [ArgString community]))
      else if community = private' a then (True, None)
      else (False, None))"

section \<open>The registry\<close>

text \<open>
  Modelled from the spec: \<^verbatim>\<open>Oid.Cmp\<close> belongs to the asn1 package, which is not part of this
  repository. The spec gives its contract: comparison is lexicographic, component by
  component, and a shorter prefix sorts before any sequence it prefixes. The result is
  negative, zero or positive.
\<close>

fun Cmp :: "Oid \<Rightarrow> Oid \<Rightarrow> int" where
  "Cmp [] [] = 0"
| "Cmp [] (m # other) = -1"
| "Cmp (n # ns) [] = 1"
| "Cmp (n # ns) (m # other) = (if n < m then -1 else if m < n then 1 else Cmp ns other)"

text \<open>\<^verbatim>\<open>sortableManagedObjects.Less\<close>, on the two elements rather than their indices.\<close>

definition Less :: "'s managedObject \<Rightarrow> 's managedObject \<Rightarrow> bool" where
  "Less hi hj = (Cmp (oid hi) (oid hj) < 0)"

text \<open>
  Modelled from the spec: \<^verbatim>\<open>sort.Sort\<close> is Go's standard library. It rearranges the slice
  into ascending order of \<^verbatim>\<open>Less\<close>; the spec describes registration as inserting at the
  point the ordering gives. It is modelled as an insertion sort. The order of elements
  that compare equal is not fixed by \<^verbatim>\<open>sort.Sort\<close>; the agent only sorts slices whose OIDs
  are pairwise different, where the ascending arrangement is unique.
\<close>

fun insertSorted :: "'s managedObject \<Rightarrow> 's managedObject list \<Rightarrow> 's managedObject list" where
  "insertSorted h [] = [h]"
| "insertSorted h (x # xs) = (if Less h x then h # x # xs else x # insertSorted h xs)"

fun Sort :: "'s managedObject list \<Rightarrow> 's managedObject list" where
  "Sort [] = []"
| "Sort (h # hs) = insertSorted h (Sort hs)"

text \<open>
  The loop of \<^verbatim>\<open>getManagedObject\<close> over \<^verbatim>\<open>a.handlers\<close>: \<open>None\<close> is the nil pointer, and the
  \<^verbatim>\<open>break\<close> leaves the loop for the final \<^verbatim>\<open>return nil\<close>.
\<close>

fun getManagedObjectLoop :: "'s managedObject list \<Rightarrow> Oid \<Rightarrow> bool \<Rightarrow> 's managedObject option" where
  "getManagedObjectLoop [] q next = None"
| "getManagedObjectLoop (h # hs) q next =
     (let cmp = Cmp q (oid h) in
      if (\<not> next \<and> cmp = 0) \<or> (next \<and> cmp < 0) then Some h
      else if \<not> next \<and> cmp < 0 then None
      else getManagedObjectLoop hs q next)"

definition getManagedObject :: "'s Agent \<Rightarrow> Oid \<Rightarrow> bool \<Rightarrow> 's managedObject option" where
  "getManagedObject a q next = getManagedObjectLoop (handlers a) q next"

text \<open>The setter that \<^verbatim>\<open>AddRwManagedObject\<close> puts in place of a nil one.\<close>

definition notWritableSetter :: "'s Setter" where
  "notWritableSetter = (\<lambda>oid' value s.
     (Some (Errorf NotWritable ''OID %s is not writable'' [ArgOid oid']), s))"

text \<open>
  \<^verbatim>\<open>AddRwManagedObject\<close> returns the error (\<open>None\<close> for nil) and the agent, which it changes in
  place. A nil getter or setter argument is \<open>None\<close>; the parameter \<^verbatim>\<open>oid\<close> is written \<open>oid'\<close>.
\<close>

definition AddRwManagedObject ::
  "'s Agent \<Rightarrow> Oid \<Rightarrow> 's Getter option \<Rightarrow> 's Setter option \<Rightarrow> err option \<times> 's Agent" where
  "AddRwManagedObject a oid' getter setter =
     (case getter of
        None \<Rightarrow> (Some (fmt_Errorf ''A managed object should have at least a getter.'' []), a)
      | Some g \<Rightarrow>
          (let setter = (case setter of None \<Rightarrow> notWritableSetter | Some f \<Rightarrow> f) in
           if getManagedObject a oid' False \<noteq> None
           then (Some (fmt_Errorf ''OID %d is already registered.'' [ArgOid oid']), a)
           else
             (let h = \<lparr>oid = oid', get = g, set' = setter\<rparr> in
              (None, a\<lparr>handlers := Sort (handlers a @ [h])\<rparr>))))"

definition AddRoManagedObject ::
  "'s Agent \<Rightarrow> Oid \<Rightarrow> 's Getter option \<Rightarrow> err option \<times> 's Agent" where
  "AddRoManagedObject a oid' getter = AddRwManagedObject a oid' getter None"

section \<open>Processing a PDU\<close>

text \<open>
  The loop of \<^verbatim>\<open>processPdu\<close> over \<^verbatim>\<open>pdu.Variables\<close>, with the loop index \<open>i\<close>, the slice
  \<open>variables\<close> and the outside state. \<open>Inl res\<close> is a \<^verbatim>\<open>return res\<close> from inside the loop,
  \<open>Inr variables\<close> the end of the loop. The parameter \<^verbatim>\<open>set\<close> is written \<open>set_flag\<close>. In a
  Set the local \<^verbatim>\<open>value\<close> stays nil.
\<close>

fun processPduLoop ::
  "'s Agent \<Rightarrow> bool \<Rightarrow> bool \<Rightarrow> Pdu \<Rightarrow> int \<Rightarrow> Variable list \<Rightarrow> Variable list \<Rightarrow> 's
     \<Rightarrow> (Pdu + Variable list) \<times> 's" where
  "processPduLoop a next set_flag res i variables [] s = (Inr variables, s)"
| "processPduLoop a next set_flag res i variables (v # vs) s =
     (case getManagedObject a (Name v) next of
        None \<Rightarrow> (Inl (res\<lparr>ErrorIndex := i + 1, ErrorStatus := NoSuchName\<rparr>), s)
      | Some h \<Rightarrow>
          (let ((value, err), s1) =
                 (if set_flag
                  then (let (e, s1) = set' h (oid h) (Value v) s in ((NilValue, e), s1))
                  else get h (oid h) s)
           in case err of
                Some e \<Rightarrow>
                  (Inl (res\<lparr>ErrorIndex := i + 1,
                             ErrorStatus := (case e of Error status m \<Rightarrow> status
                                                     | OtherError m \<Rightarrow> GenErr)\<rparr>), s1)
              | None \<Rightarrow>
                  processPduLoop a next set_flag res (i + 1)
                    (if \<not> set_flag then variables @ [\<lparr>Name = oid h, Value = value\<rparr>] else variables)
                    vs s1))"

text \<open>
  \<^verbatim>\<open>processPdu\<close>: \<^verbatim>\<open>res\<close> starts as a copy of the request PDU, and the response it returns
  comes with the outside state the accessors left.
\<close>

definition processPdu :: "'s Agent \<Rightarrow> Pdu \<Rightarrow> bool \<Rightarrow> bool \<Rightarrow> 's \<Rightarrow> Pdu \<times> 's" where
  "processPdu a pdu next set_flag s =
     (let res = pdu in
      case processPduLoop a next set_flag res 0 [] (Variables pdu) s of
        (Inl res1, s1) \<Rightarrow> (res1, s1)
      | (Inr variables, s1) \<Rightarrow>
          (if \<not> set_flag then (res\<lparr>Variables := variables\<rparr>, s1) else (res, s1)))"

section \<open>Processing a message\<close>

text \<open>
  \<^verbatim>\<open>ProcessMessage\<close> returns either an error and a nil response (\<open>Inl\<close>) or a response and a
  nil error (\<open>Inr\<close>), with the outside state. The response is a copy of the request whose
  \<^verbatim>\<open>Pdu\<close> is the \<^verbatim>\<open>GetResponsePdu\<close>.
\<close>

definition ProcessMessage :: "'s Agent \<Rightarrow> Message \<Rightarrow> 's \<Rightarrow> (err + Message) \<times> 's" where
  "ProcessMessage a request s =
     (if Version request \<noteq> 0
      then (Inl (fmt_Errorf ''invalid SNMP version %d'' [ArgInt (Version request)]), s)
      else
        (case checkCommunity a (Community request) of
           (rw, Some e) \<Rightarrow> (Inl e, s)
         | (rw, None) \<Rightarrow>
             (case Pdu request of
                GetRequestPdu pdu \<Rightarrow>
                  (let (res, s1) = processPdu a pdu False False s
                   in (Inr (request\<lparr>Pdu := GetResponsePdu res\<rparr>), s1))
              | GetNextRequestPdu pdu \<Rightarrow>
                  (let (res, s1) = processPdu a pdu True False s
                   in (Inr (request\<lparr>Pdu := GetResponsePdu res\<rparr>), s1))
              | SetRequestPdu pdu \<Rightarrow>
                  (if rw
                   then (let (res, s1) = processPdu a pdu False True s
                         in (Inr (request\<lparr>Pdu := GetResponsePdu res\<rparr>), s1))
                   else (Inr (request\<lparr>Pdu := GetResponsePdu
                                 (pdu\<lparr>ErrorIndex := 1, ErrorStatus := NoSuchName\<rparr>)\<rparr>), s))
              | other \<Rightarrow> (Inl (fmt_Errorf ''PDU not supported: %T'' [ArgPdu other]), s))))"

text \<open>
  \<^verbatim>\<open>ProcessDatagram\<close>. The codec is the asn1 package's: \<open>decode\<close> gives the message and the
  remaining bytes or an error, \<open>encode\<close> the bytes or an error. \<open>Inl\<close> is an error with nil
  response bytes.
\<close>

definition ProcessDatagram ::
  "(bytes \<Rightarrow> err + Message \<times> bytes) \<Rightarrow> (Message \<Rightarrow> err + bytes) \<Rightarrow> 's Agent \<Rightarrow> bytes \<Rightarrow> 's
     \<Rightarrow> (err + bytes) \<times> 's" where
  "ProcessDatagram decode encode a requestBytes s =
     (case decode requestBytes of
        Inl e \<Rightarrow> (Inl e, s)
      | Inr (request, remaining) \<Rightarrow>
          (if length remaining > 0
           then (Inl (fmt_Errorf (''%d remaining bytes.'' @ [CHR 0x0A]) [ArgInt (int (length remaining))]), s)
           else
             (case ProcessMessage a request s of
                (Inl e, s1) \<Rightarrow> (Inl e, s1)
              | (Inr response, s1) \<Rightarrow> (encode response, s1))))"

text \<open>
  An earlier revision of the agent has no \<^verbatim>\<open>ProcessMessage\<close>: its \<^verbatim>\<open>ProcessDatagram\<close>, written
  \<open>ProcessDatagram0\<close> here, decodes with \<^verbatim>\<open>decodeMessage\<close>, checks the version and the
  community and dispatches by itself, and encodes with \<^verbatim>\<open>encodeMessage\<close> (both in asn1.go).
  Everything else in that revision is the code above.
\<close>

definition decodeMessage :: "(bytes \<Rightarrow> err + Message \<times> bytes) \<Rightarrow> bytes \<Rightarrow> err + Message" where
  "decodeMessage decode data =
     (case decode data of
        Inl e \<Rightarrow> Inl e
      | Inr (msg, remaining) \<Rightarrow>
          (if length remaining > 0
           then Inl (fmt_Errorf (''%d remaining bytes.'' @ [CHR 0x0A])
                       [ArgInt (int (length remaining))])
           else Inr msg))"

definition encodeMessage :: "(Message \<Rightarrow> err + bytes) \<Rightarrow> Message \<Rightarrow> err + bytes" where
  "encodeMessage encode msg = encode msg"

definition ProcessDatagram0 ::
  "(bytes \<Rightarrow> err + Message \<times> bytes) \<Rightarrow> (Message \<Rightarrow> err + bytes) \<Rightarrow> 's Agent \<Rightarrow> bytes \<Rightarrow> 's
     \<Rightarrow> (err + bytes) \<times> 's" where
  "ProcessDatagram0 decode encode a requestBytes s =
     (case decodeMessage decode requestBytes of
        Inl e \<Rightarrow> (Inl e, s)
      | Inr msg \<Rightarrow>
          (if Version msg \<noteq> 0 \<and> Version msg \<noteq> 1
           then (Inl (fmt_Errorf ''invalid SNMP version %d'' [ArgInt (Version msg)]), s)
           else
             (case checkCommunity a (Community msg) of
                (rw, Some e) \<Rightarrow> (Inl e, s)
              | (rw, None) \<Rightarrow>
                  (case Pdu msg of
                     GetRequestPdu pdu \<Rightarrow>
                       (let (res, s1) = processPdu a pdu False False s
                        in (encodeMessage encode (msg\<lparr>Pdu := GetResponsePdu res\<rparr>), s1))
                   | GetNextRequestPdu pdu \<Rightarrow>
                       (let (res, s1) = processPdu a pdu True False s
                        in (encodeMessage encode (msg\<lparr>Pdu := GetResponsePdu res\<rparr>), s1))
                   | SetRequestPdu pdu \<Rightarrow>
                       (if rw
                        then (let (res, s1) = processPdu a pdu False True s
                              in (encodeMessage encode (msg\<lparr>Pdu := GetResponsePdu res\<rparr>), s1))
                        else (encodeMessage encode
                                (msg\<lparr>Pdu := GetResponsePdu
                                        (pdu\<lparr>ErrorIndex := 1, ErrorStatus := NoSuchName\<rparr>)\<rparr>), s))
                   | other \<Rightarrow> (Inl (fmt_Errorf ''PDU not supported: %T'' [ArgPdu other]), s)))))"

section \<open>Setting an agent up\<close>

text \<open>
  An operator builds an agent with \<^verbatim>\<open>NewAgent\<close> and then calls \<^verbatim>\<open>SetCommunities\<close>,
  \<^verbatim>\<open>AddRoManagedObject\<close> and \<^verbatim>\<open>AddRwManagedObject\<close> in any order and number. \<open>configure\<close> runs
  such a sequence of calls; a call that returns an error leaves the agent as it was.
\<close>

datatype 's call =
    SetCommunitiesCall string string
  | AddRoCall Oid "'s Getter option"
  | AddRwCall Oid "'s Getter option" "'s Setter option"

fun applyCall :: "'s Agent \<Rightarrow> 's call \<Rightarrow> 's Agent" where
  "applyCall a (SetCommunitiesCall pub priv) = SetCommunities a pub priv"
| "applyCall a (AddRoCall k getter) = snd (AddRoManagedObject a k getter)"
| "applyCall a (AddRwCall k getter setter) = snd (AddRwManagedObject a k getter setter)"

definition configure :: "'s call list \<Rightarrow> 's Agent" where
  "configure calls = foldl applyCall NewAgent calls"

text \<open>The OIDs that a sequence of calls registers: those named with a getter.\<close>

fun registers :: "'s call \<Rightarrow> Oid \<Rightarrow> bool" where
  "registers (SetCommunitiesCall pub priv) q = False"
| "registers (AddRoCall k getter) q = (k = q \<and> getter \<noteq> None)"
| "registers (AddRwCall k getter setter) q = (k = q \<and> getter \<noteq> None)"

definition registered :: "'s call list \<Rightarrow> Oid \<Rightarrow> bool" where
  "registered calls q = list_ex (\<lambda>c. registers c q) calls"

text \<open>
  The agent of the package documentation: communities \<^verbatim>\<open>publ\<close> and \<^verbatim>\<open>priv\<close>, a read-only
  sysUpTime and a read-write sysName whose setter refuses a value that is not a string.
  The outside state is the number of seconds the agent has run and the name.
\<close>

definition sysUpTime :: Oid where
  "sysUpTime = [1, 3, 6, 1, 2, 1, 1, 3, 0]"

definition sysName :: Oid where
  "sysName = [1, 3, 6, 1, 2, 1, 1, 5, 0]"

definition upTimeGetter :: "(int \<times> string) Getter" where
  "upTimeGetter = (\<lambda>k (seconds, name). ((IntValue seconds, None), (seconds, name)))"

definition nameGetter :: "(int \<times> string) Getter" where
  "nameGetter = (\<lambda>k (seconds, name). ((StringValue name, None), (seconds, name)))"

definition nameSetter :: "(int \<times> string) Setter" where
  "nameSetter = (\<lambda>k value (seconds, name).
     (case value of
        StringValue strValue \<Rightarrow> (None, (seconds, strValue))
      | other \<Rightarrow> (Some (Errorf BadValue ''invalid type'' []), (seconds, name))))"

definition exampleCalls :: "(int \<times> string) call list" where
  "exampleCalls =
     [SetCommunitiesCall ''publ'' ''priv'',
      AddRoCall sysUpTime (Some upTimeGetter),
      AddRwCall sysName (Some nameGetter) (Some nameSetter)]"

section \<open>The outcome of a PDU in the words of the specification\<close>

text \<open>
  Step c of the PDU processor: the write accessor is invoked when the PDU mutates, the
  read accessor otherwise, on the OID of the resolved entry.
\<close>

definition invoke :: "'s managedObject \<Rightarrow> bool \<Rightarrow> Variable \<Rightarrow> 's \<Rightarrow> (val \<times> err option) \<times> 's" where
  "invoke h mutate v s =
     (if mutate
      then (case set' h (oid h) (Value v) s of (e, s1) \<Rightarrow> ((NilValue, e), s1))
      else get h (oid h) s)"

text \<open>
  Step d: the status of a failed accessor is the one its typed error carries, and
  \<open>GenErr\<close> for any other error.
\<close>

fun failureStatus :: "err \<Rightarrow> int" where
  "failureStatus (Error status m) = status"
| "failureStatus (OtherError m) = GenErr"

text \<open>
  Steps a to e over a list of bindings that all succeed: every binding resolves and its
  accessor returns no error, each accessor running in the state the one before left. The
  result is the accumulated list (the resolved OID with the returned value for every
  binding; nothing when the PDU mutates) and the final state. It is \<open>None\<close> as soon as
  one binding fails.
\<close>

fun accumulated ::
  "'s Agent \<Rightarrow> bool \<Rightarrow> bool \<Rightarrow> Variable list \<Rightarrow> 's \<Rightarrow> (Variable list \<times> 's) option" where
  "accumulated a next mutate [] s = Some ([], s)"
| "accumulated a next mutate (v # vs) s =
     (case getManagedObject a (Name v) next of
        None \<Rightarrow> None
      | Some h \<Rightarrow>
          (case invoke h mutate v s of
             ((value, Some e), s1) \<Rightarrow> None
           | ((value, None), s1) \<Rightarrow>
               (case accumulated a next mutate vs s1 of
                  None \<Rightarrow> None
                | Some (acc, s2) \<Rightarrow>
                    Some (if mutate then acc else \<lparr>Name = oid h, Value = value\<rparr> # acc, s2))))"

section \<open>The order on object identifiers\<close>

text \<open>\<open>Cmp\<close> is a strict linear order: zero exactly on equal OIDs, antisymmetric, transitive.\<close>

lemma Cmp_eq_0: "(Cmp x y = 0) = (x = y)"
  by (induction x y rule: Cmp.induct) auto

lemma Cmp_flip: "(Cmp x y < 0) = (0 < Cmp y x)"
  by (induction x y rule: Cmp.induct) auto

lemma Cmp_trans: "Cmp x y < 0 \<Longrightarrow> Cmp y z < 0 \<Longrightarrow> Cmp x z < 0"
proof (induction x arbitrary: y z)
  case Nil
  then show ?case by (cases y; cases z) simp_all
next
  case (Cons n ns)
  from Cons.prems obtain m ms where y: "y = m # ms" by (cases y) simp_all
  from Cons.prems y obtain k ks where z: "z = k # ks" by (cases z) simp_all
  from Cons.prems y have nm: "n < m \<or> (n = m \<and> Cmp ns ms < 0)"
    by (simp split: if_splits)
  from Cons.prems y z have mk: "m < k \<or> (m = k \<and> Cmp ms ks < 0)"
    by (simp split: if_splits)
  from nm mk have "n < k \<or> (n = k \<and> Cmp ns ms < 0 \<and> Cmp ms ks < 0)" by auto
  then have "n < k \<or> (n = k \<and> Cmp ns ks < 0)" using Cons.IH by blast
  then show ?case unfolding z by auto
qed

lemma Cmp_cases: "Cmp x y < 0 \<or> x = y \<or> Cmp y x < 0"
  by (induction x y rule: Cmp.induct) auto

lemma Less_irrefl: "\<not> Less h h"
  by (simp add: Less_def Cmp_eq_0 [THEN iffD2])

lemma Less_trans: "Less x y \<Longrightarrow> Less y z \<Longrightarrow> Less x z"
  unfolding Less_def by (rule Cmp_trans)

lemma Less_asym: "Less x y \<Longrightarrow> \<not> Less y x"
  using Less_trans Less_irrefl by blast

lemma Less_total: "Less x y \<or> oid x = oid y \<or> Less y x"
  unfolding Less_def by (rule Cmp_cases)

section \<open>Sorting the handlers\<close>

lemma set_insertSorted: "set (insertSorted h xs) = insert h (set xs)"
  by (induction xs) auto

lemma sorted_insertSorted:
  "sorted_wrt Less xs \<Longrightarrow> \<forall>x\<in>set xs. oid x \<noteq> oid h \<Longrightarrow> sorted_wrt Less (insertSorted h xs)"
proof (induction xs)
  case Nil
  then show ?case by simp
next
  case (Cons x xs)
  show ?case
  proof (cases "Less h x")
    case True
    with Cons.prems show ?thesis by (auto intro: Less_trans)
  next
    case False
    with Cons.prems have "Less x h" using Less_total [of h x] by auto
    with Cons False show ?thesis by (auto simp: set_insertSorted)
  qed
qed

lemma notin_image_ball: "f x \<notin> f ` A \<Longrightarrow> \<forall>y\<in>A. f y \<noteq> f x"
  by (metis imageI)

lemma set_Sort: "set (Sort xs) = set xs"
  by (induction xs) (auto simp: set_insertSorted)

lemma sorted_Sort: "distinct (map oid xs) \<Longrightarrow> sorted_wrt Less (Sort xs)"
proof (induction xs)
  case Nil
  then show ?case by simp
next
  case (Cons x xs)
  then have "oid x \<notin> oid ` set xs" by simp
  then have "\<forall>y\<in>set (Sort xs). oid y \<noteq> oid x" unfolding set_Sort by (rule notin_image_ball)
  with Cons show ?case by (simp add: sorted_insertSorted)
qed

lemma length_insertSorted: "length (insertSorted h xs) = Suc (length xs)"
  by (induction xs) auto

lemma length_Sort: "length (Sort xs) = length xs"
  by (induction xs) (auto simp: length_insertSorted)

lemma sorted_distinct_oid: "sorted_wrt Less xs \<Longrightarrow> distinct (map oid xs)"
  by (induction xs) (auto simp: Less_def Cmp_eq_0 [THEN iffD2])

text \<open>
  Elements with pairwise different OIDs have one ascending arrangement only, the one
  \<open>Sort\<close> returns: which sorting algorithm runs makes no difference to the agent.
\<close>

lemma sorted_head_notin: "sorted_wrt Less (x # xs) \<Longrightarrow> x \<notin> set xs"
  using Less_irrefl by auto

lemma ascending_unique:
  "sorted_wrt Less xs \<Longrightarrow> sorted_wrt Less ys \<Longrightarrow> set xs = set ys \<Longrightarrow> xs = ys"
proof (induction xs arbitrary: ys)
  case Nil
  then show ?case by simp
next
  case (Cons x xs)
  from Cons.prems obtain y ys' where ys: "ys = y # ys'" by (cases ys) auto
  have xy: "x = y"
  proof (rule ccontr)
    assume n: "x \<noteq> y"
    with Cons.prems ys have "x \<in> set ys'" by auto
    with Cons.prems ys have "Less y x" by simp
    moreover from n Cons.prems ys have "y \<in> set xs" by auto
    with Cons.prems have "Less x y" by simp
    ultimately show False using Less_asym by blast
  qed
  from Cons.prems(1) have nx: "x \<notin> set xs" by (rule sorted_head_notin)
  from Cons.prems(2) ys xy have ny: "x \<notin> set ys'" using sorted_head_notin by blast
  from Cons.prems(3) ys xy nx ny have "set xs = set ys'" by auto
  with Cons.IH [of ys'] Cons.prems ys have "xs = ys'" by simp
  with xy ys show ?case by simp
qed

lemma Sort_unique:
  "distinct (map oid xs) \<Longrightarrow> sorted_wrt Less ys \<Longrightarrow> set ys = set xs \<Longrightarrow> ys = Sort xs"
  using ascending_unique [of ys "Sort xs"] by (simp add: sorted_Sort set_Sort)

section \<open>Looking an object up in ascending handlers\<close>

lemma exact_lookup:
  "sorted_wrt Less hs \<Longrightarrow>
     (getManagedObjectLoop hs q False = Some h) = (h \<in> set hs \<and> oid h = q)"
proof (induction hs)
  case Nil
  then show ?case by simp
next
  case (Cons x xs)
  then have later: "\<forall>y\<in>set xs. Cmp (oid x) (oid y) < 0" and IH: "(getManagedObjectLoop xs q False = Some h) = (h \<in> set xs \<and> oid h = q)"
    by (auto simp: Less_def)
  consider "Cmp q (oid x) = 0" | "Cmp q (oid x) < 0" | "0 < Cmp q (oid x)" by linarith
  then show ?case
  proof cases
    case 1
    then have qx: "q = oid x" by (simp add: Cmp_eq_0)
    then have "\<forall>y\<in>set xs. oid y \<noteq> q" using later by (auto simp: Cmp_eq_0 [THEN iffD2])
    with 1 qx show ?thesis by auto
  next
    case 2
    then have "\<forall>y\<in>set xs. Cmp q (oid y) < 0" using later Cmp_trans by blast
    then have "\<forall>y\<in>set xs. oid y \<noteq> q" by (auto simp: Cmp_eq_0 [THEN iffD2])
    moreover have "oid x \<noteq> q" using 2 by (auto simp: Cmp_eq_0 [THEN iffD2])
    ultimately show ?thesis using 2 by auto
  next
    case 3
    then have "oid x \<noteq> q" by (auto simp: Cmp_eq_0 [THEN iffD2])
    with 3 IH show ?thesis by auto
  qed
qed

lemma exact_lookup_None:
  "sorted_wrt Less hs \<Longrightarrow> (getManagedObjectLoop hs q False = None) = (q \<notin> oid ` set hs)"
proof -
  assume s: "sorted_wrt Less hs"
  show ?thesis
  proof (cases "getManagedObjectLoop hs q False")
    case None
    then have "\<forall>h. \<not> (h \<in> set hs \<and> oid h = q)" using exact_lookup [OF s, of q] by simp
    with None show ?thesis by auto
  next
    case (Some h)
    then show ?thesis using exact_lookup [OF s, of q h] by auto
  qed
qed

lemma next_lookup_None:
  "(getManagedObjectLoop hs q True = None) = (\<forall>x\<in>set hs. \<not> Cmp q (oid x) < 0)"
  by (induction hs) (auto simp: Let_def)

lemma next_lookup:
  "sorted_wrt Less hs \<Longrightarrow>
     (getManagedObjectLoop hs q True = Some h) =
       (h \<in> set hs \<and> Cmp q (oid h) < 0 \<and> (\<forall>x\<in>set hs. Cmp q (oid x) < 0 \<longrightarrow> x = h \<or> Cmp (oid h) (oid x) < 0))"
proof (induction hs)
  case Nil
  then show ?case by simp
next
  case (Cons x xs)
  then have later: "\<forall>y\<in>set xs. Cmp (oid x) (oid y) < 0" and IH: "(getManagedObjectLoop xs q True = Some h) =
       (h \<in> set xs \<and> Cmp q (oid h) < 0 \<and> (\<forall>x\<in>set xs. Cmp q (oid x) < 0 \<longrightarrow> x = h \<or> Cmp (oid h) (oid x) < 0))"
    by (auto simp: Less_def)
  have irr: "\<not> Cmp (oid x) (oid x) < 0" by (simp add: Cmp_eq_0 [THEN iffD2])
  show ?case
  proof (cases "Cmp q (oid x) < 0")
    case True
    then have l: "getManagedObjectLoop (x # xs) q True = Some x" by simp
    show ?thesis
    proof
      assume "getManagedObjectLoop (x # xs) q True = Some h"
      with l have "h = x" by simp
      with True later show "h \<in> set (x # xs) \<and> Cmp q (oid h) < 0 \<and>
        (\<forall>y\<in>set (x # xs). Cmp q (oid y) < 0 \<longrightarrow> y = h \<or> Cmp (oid h) (oid y) < 0)"
        by simp
    next
      assume r: "h \<in> set (x # xs) \<and> Cmp q (oid h) < 0 \<and>
        (\<forall>y\<in>set (x # xs). Cmp q (oid y) < 0 \<longrightarrow> y = h \<or> Cmp (oid h) (oid y) < 0)"
      then have d: "x = h \<or> Cmp (oid h) (oid x) < 0" using True by simp
      have "x = h"
      proof (rule ccontr)
        assume n: "x \<noteq> h"
        with r have "h \<in> set xs" by auto
        with later have "Cmp (oid x) (oid h) < 0" by simp
        moreover from d n have "Cmp (oid h) (oid x) < 0" by simp
        ultimately have "Cmp (oid x) (oid x) < 0" by (rule Cmp_trans)
        with irr show False by simp
      qed
      with l show "getManagedObjectLoop (x # xs) q True = Some h" by simp
    qed
  next
    case False
    then have "getManagedObjectLoop (x # xs) q True = getManagedObjectLoop xs q True" by simp
    with IH False show ?thesis by auto
  qed
qed

lemma oid_inj_sorted:
  "sorted_wrt Less hs \<Longrightarrow> x \<in> set hs \<Longrightarrow> y \<in> set hs \<Longrightarrow> oid x = oid y \<Longrightarrow> x = y"
  using sorted_distinct_oid [of hs] by (meson distinct_map inj_onD)

lemma Cmp_le_flip: "(\<not> Cmp x y < 0) = (Cmp y x \<le> 0)"
  using Cmp_flip [of y x] Cmp_flip [of x y] Cmp_eq_0 [of x y] Cmp_eq_0 [of y x] by auto

lemma next_lookup_minimal:
  assumes "sorted_wrt Less hs"
  shows "(getManagedObjectLoop hs q True = Some h) =
       (h \<in> set hs \<and> Cmp q (oid h) < 0 \<and> (\<forall>x\<in>set hs. Cmp q (oid x) < 0 \<longrightarrow> Cmp (oid h) (oid x) \<le> 0))"
proof -
  have "(h \<in> set hs \<and> (\<forall>x\<in>set hs. Cmp q (oid x) < 0 \<longrightarrow> x = h \<or> Cmp (oid h) (oid x) < 0))
      = (h \<in> set hs \<and> (\<forall>x\<in>set hs. Cmp q (oid x) < 0 \<longrightarrow> Cmp (oid h) (oid x) \<le> 0))"
  proof (intro iffI conjI ballI impI)
    fix x assume a: "h \<in> set hs \<and> (\<forall>x\<in>set hs. Cmp q (oid x) < 0 \<longrightarrow> x = h \<or> Cmp (oid h) (oid x) < 0)"
      and x: "x \<in> set hs" "Cmp q (oid x) < 0"
    then have "x = h \<or> Cmp (oid h) (oid x) < 0" by simp
    then show "Cmp (oid h) (oid x) \<le> 0" using Cmp_eq_0 [of "oid h" "oid h"] by auto
  next
    fix x assume a: "h \<in> set hs \<and> (\<forall>x\<in>set hs. Cmp q (oid x) < 0 \<longrightarrow> Cmp (oid h) (oid x) \<le> 0)"
      and x: "x \<in> set hs" "Cmp q (oid x) < 0"
    then have c: "Cmp (oid h) (oid x) \<le> 0" by simp
    show "x = h \<or> Cmp (oid h) (oid x) < 0"
    proof (cases "Cmp (oid h) (oid x) = 0")
      case True
      then have "oid h = oid x" by (simp add: Cmp_eq_0)
      with a x assms have "h = x" using oid_inj_sorted by blast
      then show ?thesis by simp
    next
      case False
      with c show ?thesis by simp
    qed
  qed simp_all
  with next_lookup [OF assms, of q h] show ?thesis by auto
qed

lemma getManagedObject_exact:
  "sorted_wrt Less (handlers a) \<Longrightarrow>
     (getManagedObject a q False = Some h) = (h \<in> set (handlers a) \<and> oid h = q)"
  unfolding getManagedObject_def by (rule exact_lookup)

lemma getManagedObject_exact_None:
  "sorted_wrt Less (handlers a) \<Longrightarrow>
     (getManagedObject a q False = None) = (q \<notin> oid ` set (handlers a))"
  unfolding getManagedObject_def by (rule exact_lookup_None)

section \<open>Registration keeps the handlers ascending\<close>

lemma AddRw_rejects:
  assumes "sorted_wrt Less (handlers a)" and "k \<in> oid ` set (handlers a) \<or> getter = None"
  shows "\<exists>e. AddRwManagedObject a k getter setter = (Some e, a)"
proof (cases getter)
  case None
  then show ?thesis by (simp add: AddRwManagedObject_def)
next
  case (Some g)
  with assms have "getManagedObject a k False \<noteq> None"
    by (simp add: getManagedObject_exact_None)
  with Some show ?thesis by (simp add: AddRwManagedObject_def)
qed

lemma AddRw_accepts:
  assumes "sorted_wrt Less (handlers a)" and "k \<notin> oid ` set (handlers a)"
  shows "AddRwManagedObject a k (Some g) setter =
           (None, a\<lparr>handlers := Sort (handlers a @
               [\<lparr>oid = k, get = g, set' = (case setter of None \<Rightarrow> notWritableSetter | Some f \<Rightarrow> f)\<rparr>])\<rparr>)"
  using assms by (simp add: AddRwManagedObject_def getManagedObject_exact_None)

lemma AddRw_sorted:
  assumes "sorted_wrt Less (handlers a)"
  shows "sorted_wrt Less (handlers (snd (AddRwManagedObject a k getter setter)))"
proof (cases "k \<in> oid ` set (handlers a) \<or> getter = None")
  case True
  with AddRw_rejects [OF assms True, of setter] assms show ?thesis by auto
next
  case False
  then obtain g where g: "getter = Some g" and k: "k \<notin> oid ` set (handlers a)" by auto
  from assms have "distinct (map oid (handlers a))" by (rule sorted_distinct_oid)
  with k have "distinct (map oid (handlers a @
      [\<lparr>oid = k, get = g, set' = (case setter of None \<Rightarrow> notWritableSetter | Some f \<Rightarrow> f)\<rparr>]))"
    by simp
  then have "sorted_wrt Less (Sort (handlers a @
      [\<lparr>oid = k, get = g, set' = (case setter of None \<Rightarrow> notWritableSetter | Some f \<Rightarrow> f)\<rparr>]))"
    by (rule sorted_Sort)
  then show ?thesis unfolding g AddRw_accepts [OF assms k] by simp
qed

lemma applyCall_sorted:
  "sorted_wrt Less (handlers a) \<Longrightarrow> sorted_wrt Less (handlers (applyCall a c))"
  by (cases c) (simp_all add: SetCommunities_def AddRoManagedObject_def AddRw_sorted)

lemma foldl_applyCall_sorted:
  "sorted_wrt Less (handlers a) \<Longrightarrow> sorted_wrt Less (handlers (foldl applyCall a calls))"
  by (induction calls arbitrary: a) (simp_all add: applyCall_sorted)

lemma configure_sorted: "sorted_wrt Less (handlers (configure calls))"
  unfolding configure_def by (rule foldl_applyCall_sorted) (simp add: NewAgent_def)

lemma AddRw_oids:
  assumes "sorted_wrt Less (handlers a)"
  shows "(q \<in> oid ` set (handlers (snd (AddRwManagedObject a k getter setter)))) =
           (q \<in> oid ` set (handlers a) \<or> (k = q \<and> getter \<noteq> None))"
proof (cases "k \<in> oid ` set (handlers a) \<or> getter = None")
  case True
  with AddRw_rejects [OF assms True, of setter] show ?thesis by auto
next
  case False
  then obtain g where g: "getter = Some g" and k: "k \<notin> oid ` set (handlers a)" by auto
  show ?thesis unfolding g AddRw_accepts [OF assms k] by (auto simp: set_Sort)
qed

lemma applyCall_oids:
  "sorted_wrt Less (handlers a) \<Longrightarrow>
     (q \<in> oid ` set (handlers (applyCall a c))) = (q \<in> oid ` set (handlers a) \<or> registers c q)"
  by (cases c) (simp_all add: SetCommunities_def AddRoManagedObject_def AddRw_oids)

lemma foldl_applyCall_oids:
  "sorted_wrt Less (handlers a) \<Longrightarrow>
     (q \<in> oid ` set (handlers (foldl applyCall a calls))) =
       (q \<in> oid ` set (handlers a) \<or> registered calls q)"
proof (induction calls arbitrary: a)
  case Nil
  then show ?case by (simp add: registered_def)
next
  case (Cons c calls)
  from Cons.prems have "sorted_wrt Less (handlers (applyCall a c))" by (rule applyCall_sorted)
  from Cons.IH [OF this] applyCall_oids [OF Cons.prems, of q c]
  show ?case by (auto simp: registered_def)
qed

lemma configure_oids: "(q \<in> oid ` set (handlers (configure calls))) = registered calls q"
  unfolding configure_def using foldl_applyCall_oids [of NewAgent q calls] by (simp add: NewAgent_def)

lemma AddRw_keeps:
  "h \<in> set (handlers a) \<Longrightarrow> h \<in> set (handlers (snd (AddRwManagedObject a k getter setter)))"
  by (simp add: AddRwManagedObject_def set_Sort Let_def split: option.splits)

lemma applyCall_keeps:
  "h \<in> set (handlers a) \<Longrightarrow> h \<in> set (handlers (applyCall a c))"
  by (cases c) (simp_all add: SetCommunities_def AddRoManagedObject_def AddRw_keeps)

lemma foldl_applyCall_keeps:
  "h \<in> set (handlers a) \<Longrightarrow> h \<in> set (handlers (foldl applyCall a calls))"
  by (induction calls arbitrary: a) (simp_all add: applyCall_keeps)

lemma AddRw_without_setter:
  assumes "sorted_wrt Less (handlers a)"
    and "AddRwManagedObject a k (Some g) None = (None, a1)"
  shows "sorted_wrt Less (handlers a1)
         \<and> \<lparr>oid = k, get = g, set' = notWritableSetter\<rparr> \<in> set (handlers a1)"
proof -
  have s: "sorted_wrt Less (handlers (snd (AddRwManagedObject a k (Some g) None)))"
    using assms(1) by (rule AddRw_sorted)
  have "getManagedObject a k False = None"
    using assms(2) by (simp add: AddRwManagedObject_def split: if_splits)
  with assms(2) have "handlers a1 =
      Sort (handlers a @ [\<lparr>oid = k, get = g, set' = notWritableSetter\<rparr>])"
    by (auto simp: AddRwManagedObject_def)
  then have "\<lparr>oid = k, get = g, set' = notWritableSetter\<rparr> \<in> set (handlers a1)"
    by (simp add: set_Sort)
  with s assms(2) show ?thesis by simp
qed

text \<open>The agent of the package documentation, evaluated.\<close>

lemmas example_defs = configure_def exampleCalls_def NewAgent_def SetCommunities_def
  AddRoManagedObject_def AddRwManagedObject_def getManagedObject_def Less_def
  sysUpTime_def sysName_def

lemma example_handlers:
  "handlers (configure exampleCalls) =
     [\<lparr>oid = sysUpTime, get = upTimeGetter, set' = notWritableSetter\<rparr>,
      \<lparr>oid = sysName, get = nameGetter, set' = nameSetter\<rparr>]"
  by (simp add: example_defs)

lemma example_agent:
  "configure exampleCalls =
     \<lparr>handlers = [\<lparr>oid = sysUpTime, get = upTimeGetter, set' = notWritableSetter\<rparr>,
                  \<lparr>oid = sysName, get = nameGetter, set' = nameSetter\<rparr>],
      public' = ''publ'', private' = ''priv''\<rparr>"
  by (simp add: example_defs)

lemmas example_run = example_agent getManagedObject_def invoke_def sysUpTime_def sysName_def
  upTimeGetter_def nameGetter_def nameSetter_def notWritableSetter_def Errorf_def


section \<open>The registry invariant\<close>

text \<open>
  C4. After any sequence of setup calls the handlers are in strictly ascending order of
  OID: for all \<open>i < j\<close> the OID at \<open>i\<close> is below the OID at \<open>j\<close>, so no two entries share an
  OID. A registration that names an OID already registered, or that supplies no getter,
  returns an error and leaves the agent exactly as it was, through \<open>AddRwManagedObject\<close>
  as through \<open>AddRoManagedObject\<close>.
\<close>

theorem registry_ascending_unique:
  "(\<forall>i j. i < j \<longrightarrow> j < length (handlers (configure calls)) \<longrightarrow>
       Cmp (oid (handlers (configure calls) ! i)) (oid (handlers (configure calls) ! j)) < 0)
   \<and> (registered calls k \<or> getter = None \<longrightarrow>
        (\<exists>e. AddRwManagedObject (configure calls) k getter setter = (Some e, configure calls))
        \<and> (\<exists>e. AddRoManagedObject (configure calls) k getter = (Some e, configure calls)))"
proof (intro conjI impI)
  show "\<forall>i j. i < j \<longrightarrow> j < length (handlers (configure calls)) \<longrightarrow>
       Cmp (oid (handlers (configure calls) ! i)) (oid (handlers (configure calls) ! j)) < 0"
    using configure_sorted [of calls] by (simp add: sorted_wrt_iff_nth_less Less_def)
next
  assume "registered calls k \<or> getter = None"
  then have r: "k \<in> oid ` set (handlers (configure calls)) \<or> getter = None"
    by (simp add: configure_oids)
  show "\<exists>e. AddRwManagedObject (configure calls) k getter setter = (Some e, configure calls)"
    using configure_sorted r by (rule AddRw_rejects)
  show "\<exists>e. AddRoManagedObject (configure calls) k getter = (Some e, configure calls)"
    unfolding AddRoManagedObject_def using configure_sorted r by (rule AddRw_rejects)
qed

theorem registry_ascending_unique_witness:
  "Cmp (oid (handlers (configure exampleCalls) ! 0)) (oid (handlers (configure exampleCalls) ! 1)) < 0
   \<and> (\<exists>e. AddRwManagedObject (configure exampleCalls) sysName (Some nameGetter) None
          = (Some e, configure exampleCalls))
   \<and> (\<exists>e. AddRoManagedObject (configure exampleCalls) [1, 3] None
          = (Some e, configure exampleCalls))"
proof -
  have len: "(1::nat) < length (handlers (configure exampleCalls))"
    by (simp add: example_handlers)
  have reg: "registered exampleCalls sysName"
    by (simp add: registered_def exampleCalls_def)
  from registry_ascending_unique [of exampleCalls sysName "Some nameGetter" None]
    registry_ascending_unique [of exampleCalls "[1, 3]" None None] len reg
  show ?thesis by simp
qed

section \<open>Exact and next lookup\<close>

text \<open>
  C3. In an agent built by any sequence of setup calls, the exact lookup returns an
  entry exactly when that entry is in the registry under the queried OID, and it finds
  one exactly when some call registered that OID. The lookup of the next object returns
  the entry with the least OID strictly above the query, and returns nothing exactly when
  every registered OID is at most the query.
\<close>

theorem lookup_exact_and_next:
  "((getManagedObject (configure calls) q False = Some h) =
      (h \<in> set (handlers (configure calls)) \<and> oid h = q))
   \<and> ((getManagedObject (configure calls) q False \<noteq> None) = registered calls q)
   \<and> ((getManagedObject (configure calls) q True = Some h) =
        (h \<in> set (handlers (configure calls)) \<and> Cmp q (oid h) < 0
         \<and> (\<forall>x\<in>set (handlers (configure calls)). Cmp q (oid x) < 0 \<longrightarrow> Cmp (oid h) (oid x) \<le> 0)))
   \<and> ((getManagedObject (configure calls) q True = None) =
        (\<forall>x\<in>set (handlers (configure calls)). Cmp (oid x) q \<le> 0))"
proof (intro conjI)
  show "(getManagedObject (configure calls) q False = Some h) =
      (h \<in> set (handlers (configure calls)) \<and> oid h = q)"
    using configure_sorted by (rule getManagedObject_exact)
  show "(getManagedObject (configure calls) q False \<noteq> None) = registered calls q"
    using getManagedObject_exact_None [OF configure_sorted, of calls q] configure_oids [of q calls]
    by simp
  show "(getManagedObject (configure calls) q True = Some h) =
        (h \<in> set (handlers (configure calls)) \<and> Cmp q (oid h) < 0
         \<and> (\<forall>x\<in>set (handlers (configure calls)). Cmp q (oid x) < 0 \<longrightarrow> Cmp (oid h) (oid x) \<le> 0))"
    unfolding getManagedObject_def using configure_sorted by (rule next_lookup_minimal)
  show "(getManagedObject (configure calls) q True = None) =
        (\<forall>x\<in>set (handlers (configure calls)). Cmp (oid x) q \<le> 0)"
    unfolding getManagedObject_def next_lookup_None by (simp add: Cmp_le_flip)
qed

theorem lookup_exact_and_next_witness:
  "getManagedObject (configure exampleCalls) [1, 3, 6, 1, 2, 1, 1, 3] True
     = Some \<lparr>oid = sysUpTime, get = upTimeGetter, set' = notWritableSetter\<rparr>
   \<and> getManagedObject (configure exampleCalls) sysUpTime True
     = Some \<lparr>oid = sysName, get = nameGetter, set' = nameSetter\<rparr>
   \<and> getManagedObject (configure exampleCalls) sysName True = None
   \<and> getManagedObject (configure exampleCalls) sysName False
     = Some \<lparr>oid = sysName, get = nameGetter, set' = nameSetter\<rparr>
   \<and> getManagedObject (configure exampleCalls) [1, 3, 6, 1, 2, 1, 1, 3] False = None"
proof -
  have r: "\<not> registered exampleCalls [1, 3, 6, 1, 2, 1, 1, 3]"
    by (simp add: registered_def exampleCalls_def sysUpTime_def sysName_def)
  from lookup_exact_and_next [of exampleCalls "[1, 3, 6, 1, 2, 1, 1, 3]"
      "\<lparr>oid = sysUpTime, get = upTimeGetter, set' = notWritableSetter\<rparr>"]
    lookup_exact_and_next [of exampleCalls sysUpTime
      "\<lparr>oid = sysName, get = nameGetter, set' = nameSetter\<rparr>"]
    lookup_exact_and_next [of exampleCalls sysName
      "\<lparr>oid = sysName, get = nameGetter, set' = nameSetter\<rparr>"] r
  show ?thesis by (simp add: example_handlers sysUpTime_def sysName_def)
qed

section \<open>The loop of the PDU processor\<close>

lemma failureStatus_case:
  "(case e of Error status m \<Rightarrow> status | OtherError m \<Rightarrow> GenErr) = failureStatus e"
  by (cases e) simp_all

lemma processPduLoop_Cons:
  "processPduLoop a next sf res i acc (v # vs) s =
     (case getManagedObject a (Name v) next of
        None \<Rightarrow> (Inl (res\<lparr>ErrorIndex := i + 1, ErrorStatus := NoSuchName\<rparr>), s)
      | Some h \<Rightarrow>
          (case invoke h sf v s of
             ((value, Some e), s1) \<Rightarrow>
               (Inl (res\<lparr>ErrorIndex := i + 1, ErrorStatus := failureStatus e\<rparr>), s1)
           | ((value, None), s1) \<Rightarrow>
               processPduLoop a next sf res (i + 1)
                 (if sf then acc else acc @ [\<lparr>Name = oid h, Value = value\<rparr>]) vs s1))"
  by (simp add: invoke_def failureStatus_case split: option.splits prod.splits)

lemma accumulated_Cons_Some:
  assumes "accumulated a next sf (v # vs) s = Some (acc, s2)"
  obtains h x s1 acc1 where "getManagedObject a (Name v) next = Some h"
    and "invoke h sf v s = ((x, None), s1)"
    and "accumulated a next sf vs s1 = Some (acc1, s2)"
    and "acc = (if sf then acc1 else \<lparr>Name = oid h, Value = x\<rparr> # acc1)"
  using assms by (auto split: option.splits prod.splits)

lemma loop_after_accumulated:
  "accumulated a next sf vs s = Some (acc1, s1) \<Longrightarrow>
     processPduLoop a next sf res i acc (vs @ rest) s =
       processPduLoop a next sf res (i + int (length vs)) (acc @ acc1) rest s1"
proof (induction vs arbitrary: i acc s acc1)
  case Nil
  then show ?case by simp
next
  case (Cons v vs)
  from Cons.prems obtain h x s2 acc2 where
      h: "getManagedObject a (Name v) next = Some h"
    and inv: "invoke h sf v s = ((x, None), s2)"
    and rest: "accumulated a next sf vs s2 = Some (acc2, s1)"
    and acc1: "acc1 = (if sf then acc2 else \<lparr>Name = oid h, Value = x\<rparr> # acc2)"
    by (rule accumulated_Cons_Some)
  have "processPduLoop a next sf res i acc ((v # vs) @ rest) s =
        processPduLoop a next sf res (i + 1)
          (if sf then acc else acc @ [\<lparr>Name = oid h, Value = x\<rparr>]) (vs @ rest) s2"
    using h inv by (simp add: processPduLoop_Cons del: processPduLoop.simps)
  also have "\<dots> = processPduLoop a next sf res (i + 1 + int (length vs))
          ((if sf then acc else acc @ [\<lparr>Name = oid h, Value = x\<rparr>]) @ acc2) rest s1"
    using rest by (rule Cons.IH)
  also have "\<dots> = processPduLoop a next sf res (i + int (length (v # vs))) (acc @ acc1) rest s1"
    by (simp add: acc1 algebra_simps)
  finally show ?case .
qed

lemma accumulated_mutate_Nil:
  "accumulated a next True vs s = Some (acc, s1) \<Longrightarrow> acc = []"
proof (induction vs arbitrary: s acc)
  case Nil
  then show ?case by simp
next
  case (Cons v vs)
  from Cons.prems obtain h x s2 acc2 where "getManagedObject a (Name v) next = Some h"
    and "accumulated a next True vs s2 = Some (acc2, s1)"
    and "acc = (if True then acc2 else \<lparr>Name = oid h, Value = x\<rparr> # acc2)"
    by (rule accumulated_Cons_Some)
  with Cons.IH show ?case by simp
qed

lemma accumulated_names:
  "accumulated a next False vs s = Some (acc, s1) \<Longrightarrow>
     map (\<lambda>v. map_option oid (getManagedObject a (Name v) next)) vs = map (\<lambda>r. Some (Name r)) acc"
proof (induction vs arbitrary: s acc)
  case Nil
  then show ?case by simp
next
  case (Cons v vs)
  from Cons.prems obtain h x s2 acc2 where h: "getManagedObject a (Name v) next = Some h"
    and r: "accumulated a next False vs s2 = Some (acc2, s1)"
    and a: "acc = (if False then acc2 else \<lparr>Name = oid h, Value = x\<rparr> # acc2)"
    by (rule accumulated_Cons_Some)
  from Cons.IH [OF r] h a show ?case by simp
qed

lemma processPdu_success:
  assumes "accumulated a next sf (Variables pdu) s = Some (acc, s1)"
  shows "processPdu a pdu next sf s = ((if sf then pdu else pdu\<lparr>Variables := acc\<rparr>), s1)"
proof -
  from loop_after_accumulated [OF assms, of pdu 0 "[]" "[]"]
  have "processPduLoop a next sf pdu 0 [] (Variables pdu) s = (Inr acc, s1)" by simp
  then show ?thesis by (simp add: processPdu_def)
qed

lemma processPdu_failure:
  assumes k: "k < length (Variables pdu)"
    and pre: "accumulated a next sf (take k (Variables pdu)) s = Some (acc, s1)"
    and step: "processPduLoop a next sf pdu (int k) acc (Variables pdu ! k # drop (Suc k) (Variables pdu)) s1
                 = (Inl res, s2)"
  shows "processPdu a pdu next sf s = (res, s2)"
proof -
  have split: "Variables pdu = take k (Variables pdu) @ (Variables pdu ! k # drop (Suc k) (Variables pdu))"
    using k by (simp add: id_take_nth_drop [symmetric])
  have len: "length (take k (Variables pdu)) = k" using k by simp
  have "processPduLoop a next sf pdu 0 [] (Variables pdu) s =
        processPduLoop a next sf pdu 0 []
          (take k (Variables pdu) @ (Variables pdu ! k # drop (Suc k) (Variables pdu))) s"
    using split by simp
  also have "\<dots> = processPduLoop a next sf pdu (0 + int (length (take k (Variables pdu)))) ([] @ acc)
          (Variables pdu ! k # drop (Suc k) (Variables pdu)) s1"
    using pre by (rule loop_after_accumulated)
  also have "\<dots> = (Inl res, s2)" using step len by simp
  finally show ?thesis by (simp add: processPdu_def)
qed

lemma processPduLoop_Id:
  "processPduLoop a next sf res i acc vs s = (Inl r, s1) \<Longrightarrow> Id' r = Id' res"
proof (induction vs arbitrary: i acc s)
  case Nil
  then show ?case by simp
next
  case (Cons v vs)
  show ?case
  proof (cases "getManagedObject a (Name v) next")
    case None
    with Cons.prems show ?thesis by (auto simp: processPduLoop_Cons simp del: processPduLoop.simps)
  next
    case (Some h)
    obtain x eo s2 where inv: "invoke h sf v s = ((x, eo), s2)" by (metis surj_pair)
    show ?thesis
    proof (cases eo)
      case None
      with Some inv Cons.prems have "processPduLoop a next sf res (i + 1)
          (if sf then acc else acc @ [\<lparr>Name = oid h, Value = x\<rparr>]) vs s2 = (Inl r, s1)"
        by (simp add: processPduLoop_Cons del: processPduLoop.simps)
      then show ?thesis by (rule Cons.IH)
    next
      case (Some e)
      with \<open>getManagedObject a (Name v) next = Some h\<close> inv Cons.prems show ?thesis
        by (auto simp: processPduLoop_Cons simp del: processPduLoop.simps)
    qed
  qed
qed

lemma processPdu_Id: "Id' (fst (processPdu a pdu next sf s)) = Id' pdu"
proof (cases "processPduLoop a next sf pdu 0 [] (Variables pdu) s")
  case (Pair r s1)
  show ?thesis
  proof (cases r)
    case (Inl res)
    with Pair have "processPduLoop a next sf pdu 0 [] (Variables pdu) s = (Inl res, s1)" by simp
    then have "Id' res = Id' pdu" by (rule processPduLoop_Id)
    with Pair Inl show ?thesis by (simp add: processPdu_def)
  next
    case (Inr vars)
    with Pair show ?thesis by (simp add: processPdu_def)
  qed
qed

section \<open>Responses of the PDU processor\<close>

text \<open>
  C1. Let the first \<open>k\<close> bindings of a PDU all succeed and let the next one fail: either
  no entry resolves, which has the status \<open>NoSuchName\<close>, or the accessor returns an
  error, which has the status of that error. Then \<open>processPdu\<close> returns the request PDU
  with its error index set to \<open>k + 1\<close> and its error status to that status, whether the
  PDU is a Get, a GetNext or a Set. All other fields are the request's: the variable list
  is the original one, and none of the values accumulated from the first \<open>k\<close> bindings is
  in it.
\<close>

theorem first_failure_aborts:
  assumes "k < length (Variables pdu)"
    and "accumulated a next sf (take k (Variables pdu)) s = Some (acc, s1)"
    and "(getManagedObject a (Name (Variables pdu ! k)) next = None
            \<and> status = NoSuchName \<and> s2 = s1)
         \<or> (\<exists>h x e. getManagedObject a (Name (Variables pdu ! k)) next = Some h
               \<and> invoke h sf (Variables pdu ! k) s1 = ((x, Some e), s2)
               \<and> status = failureStatus e)"
  shows "processPdu a pdu next sf s = (pdu\<lparr>ErrorIndex := int k + 1, ErrorStatus := status\<rparr>, s2)
         \<and> Variables (fst (processPdu a pdu next sf s)) = Variables pdu"
proof -
  from assms(3)
  have "processPduLoop a next sf pdu (int k) acc
          (Variables pdu ! k # drop (Suc k) (Variables pdu)) s1
        = (Inl (pdu\<lparr>ErrorIndex := int k + 1, ErrorStatus := status\<rparr>), s2)"
    by (auto simp: processPduLoop_Cons simp del: processPduLoop.simps)
  with assms(1,2)
  have "processPdu a pdu next sf s = (pdu\<lparr>ErrorIndex := int k + 1, ErrorStatus := status\<rparr>, s2)"
    by (rule processPdu_failure)
  then show ?thesis by simp
qed

theorem first_failure_aborts_witness:
  "processPdu (configure exampleCalls)
     \<lparr>Id' = 7, ErrorStatus = 0, ErrorIndex = 0,
      Variables = [\<lparr>Name = sysUpTime, Value = NullValue\<rparr>, \<lparr>Name = [1, 3], Value = NullValue\<rparr>,
                   \<lparr>Name = sysName, Value = NullValue\<rparr>]\<rparr>
     False False (123, ''example'')
   = (\<lparr>Id' = 7, ErrorStatus = 2, ErrorIndex = 2,
       Variables = [\<lparr>Name = sysUpTime, Value = NullValue\<rparr>, \<lparr>Name = [1, 3], Value = NullValue\<rparr>,
                    \<lparr>Name = sysName, Value = NullValue\<rparr>]\<rparr>,
      (123, ''example''))"
proof -
  have pre: "accumulated (configure exampleCalls) False False
               (take 1 [\<lparr>Name = sysUpTime, Value = NullValue\<rparr>, \<lparr>Name = [1, 3], Value = NullValue\<rparr>,
                        \<lparr>Name = sysName, Value = NullValue\<rparr>]) (123, ''example'')
             = Some ([\<lparr>Name = sysUpTime, Value = IntValue 123\<rparr>], (123, ''example''))"
    by (simp add: example_run)
  have miss: "getManagedObject (configure exampleCalls) [1, 3] False = None"
    by (simp add: example_run)
  from first_failure_aborts [of 1
      "\<lparr>Id' = 7, ErrorStatus = 0, ErrorIndex = 0,
        Variables = [\<lparr>Name = sysUpTime, Value = NullValue\<rparr>, \<lparr>Name = [1, 3], Value = NullValue\<rparr>,
                     \<lparr>Name = sysName, Value = NullValue\<rparr>]\<rparr>"
      "configure exampleCalls" False False "(123, ''example'')"
      "[\<lparr>Name = sysUpTime, Value = IntValue 123\<rparr>]" "(123, ''example'')" NoSuchName
      "(123, ''example'')"] pre miss
  show ?thesis by simp
qed

text \<open>
  The variable list of a successful response: when every binding of a PDU resolves and
  its accessor succeeds, a Get or a GetNext is answered with the accumulated list, whose
  entries are named by the OIDs of the resolved entries and hold the values the
  accessors returned, and a Set with the request's list unchanged.
\<close>

lemma success_variables:
  assumes "accumulated a next sf (Variables pdu) s = Some (acc, s1)"
  shows "snd (processPdu a pdu next sf s) = s1
         \<and> (\<not> sf \<longrightarrow> Variables (fst (processPdu a pdu next sf s)) = acc
              \<and> map (\<lambda>v. map_option oid (getManagedObject a (Name v) next)) (Variables pdu)
                  = map (\<lambda>r. Some (Name r)) acc)
         \<and> (sf \<longrightarrow> Variables (fst (processPdu a pdu next sf s)) = Variables pdu)"
proof -
  have p: "processPdu a pdu next sf s = ((if sf then pdu else pdu\<lparr>Variables := acc\<rparr>), s1)"
    using assms by (rule processPdu_success)
  have n: "\<not> sf \<longrightarrow> map (\<lambda>v. map_option oid (getManagedObject a (Name v) next)) (Variables pdu)
                  = map (\<lambda>r. Some (Name r)) acc"
    using assms accumulated_names by auto
  from n show ?thesis unfolding p by simp
qed

text \<open>
  C2. When every binding of a PDU resolves and its accessor succeeds, the response is to
  carry the error status \<open>NoError\<close> and the error index 0. \<open>processPdu\<close> does not see to
  that: it starts from a copy of the request PDU and, unlike every exit that reports a
  failure, the exit for a success writes neither field. A Get request for the registered
  sysUpTime that arrives with the error status 5 and the error index 3 has its one
  binding succeed, and is answered with the value and with the same 5 and 3, by
  \<open>processPdu\<close> and so by \<open>ProcessMessage\<close> under the read community.
\<close>

theorem success_response_failing_input:
  "accumulated (configure exampleCalls) False False [\<lparr>Name = sysUpTime, Value = NullValue\<rparr>]
     (123, ''example'')
     = Some ([\<lparr>Name = sysUpTime, Value = IntValue 123\<rparr>], (123, ''example''))
   \<and> processPdu (configure exampleCalls)
        \<lparr>Id' = 7, ErrorStatus = 5, ErrorIndex = 3,
         Variables = [\<lparr>Name = sysUpTime, Value = NullValue\<rparr>]\<rparr> False False (123, ''example'')
     = (\<lparr>Id' = 7, ErrorStatus = 5, ErrorIndex = 3,
         Variables = [\<lparr>Name = sysUpTime, Value = IntValue 123\<rparr>]\<rparr>, (123, ''example''))
   \<and> ProcessMessage (configure exampleCalls)
        \<lparr>Version = 0, Community = ''publ'',
         Pdu = GetRequestPdu \<lparr>Id' = 7, ErrorStatus = 5, ErrorIndex = 3,
                 Variables = [\<lparr>Name = sysUpTime, Value = NullValue\<rparr>]\<rparr>\<rparr> (123, ''example'')
     = (Inr \<lparr>Version = 0, Community = ''publ'',
             Pdu = GetResponsePdu \<lparr>Id' = 7, ErrorStatus = 5, ErrorIndex = 3,
                     Variables = [\<lparr>Name = sysUpTime, Value = IntValue 123\<rparr>]\<rparr>\<rparr>,
        (123, ''example''))"
  by (simp add: example_run processPdu_def ProcessMessage_def checkCommunity_def)

text \<open>
  C8. Let the first \<open>k\<close> bindings succeed and let the accessor of the next one, the setter
  in a Set and the getter otherwise, return an error. If the error is the typed \<open>Error\<close>
  the error status of the response is the status it carries, and if it is any other error
  value the error status is \<open>GenErr\<close>, that is 5. In both cases the error index is \<open>k + 1\<close>.
\<close>

theorem accessor_error_status:
  assumes "k < length (Variables pdu)"
    and "accumulated a next sf (take k (Variables pdu)) s = Some (acc, s1)"
    and "getManagedObject a (Name (Variables pdu ! k)) next = Some h"
    and "if sf then set' h (oid h) (Value (Variables pdu ! k)) s1 = (Some e, s2)
         else get h (oid h) s1 = ((x, Some e), s2)"
  shows "ErrorIndex (fst (processPdu a pdu next sf s)) = int k + 1
         \<and> (\<forall>status m. e = Error status m \<longrightarrow>
               ErrorStatus (fst (processPdu a pdu next sf s)) = status)
         \<and> (\<forall>m. e = OtherError m \<longrightarrow> ErrorStatus (fst (processPdu a pdu next sf s)) = 5)"
proof -
  from assms(4) obtain y where "invoke h sf (Variables pdu ! k) s1 = ((y, Some e), s2)"
    by (cases sf) (simp_all add: invoke_def)
  with assms(3)
  have "processPduLoop a next sf pdu (int k) acc
          (Variables pdu ! k # drop (Suc k) (Variables pdu)) s1
        = (Inl (pdu\<lparr>ErrorIndex := int k + 1, ErrorStatus := failureStatus e\<rparr>), s2)"
    by (simp add: processPduLoop_Cons del: processPduLoop.simps)
  with assms(1,2)
  have "processPdu a pdu next sf s
          = (pdu\<lparr>ErrorIndex := int k + 1, ErrorStatus := failureStatus e\<rparr>, s2)"
    by (rule processPdu_failure)
  then show ?thesis by auto
qed

theorem accessor_error_status_witness:
  "ErrorStatus (fst (processPdu (configure exampleCalls)
        \<lparr>Id' = 7, ErrorStatus = 0, ErrorIndex = 0,
         Variables = [\<lparr>Name = sysName, Value = IntValue 5\<rparr>]\<rparr> False True (123, ''example''))) = 3
   \<and> ErrorIndex (fst (processPdu (configure exampleCalls)
        \<lparr>Id' = 7, ErrorStatus = 0, ErrorIndex = 0,
         Variables = [\<lparr>Name = sysName, Value = IntValue 5\<rparr>]\<rparr> False True (123, ''example''))) = 1
   \<and> ErrorStatus (fst (processPdu
        (configure [AddRoCall [1, 3] (Some (\<lambda>k s. ((NilValue, Some (fmt_Errorf ''failed'' [])), s)))])
        \<lparr>Id' = 7, ErrorStatus = 0, ErrorIndex = 0,
         Variables = [\<lparr>Name = [1, 3], Value = NullValue\<rparr>]\<rparr> False False (0::nat))) = 5
   \<and> ErrorIndex (fst (processPdu
        (configure [AddRoCall [1, 3] (Some (\<lambda>k s. ((NilValue, Some (fmt_Errorf ''failed'' [])), s)))])
        \<lparr>Id' = 7, ErrorStatus = 0, ErrorIndex = 0,
         Variables = [\<lparr>Name = [1, 3], Value = NullValue\<rparr>]\<rparr> False False (0::nat))) = 1"
proof -
  have k1: "0 < length (Variables \<lparr>Id' = 7, ErrorStatus = 0, ErrorIndex = 0,
         Variables = [\<lparr>Name = sysName, Value = IntValue 5\<rparr>]\<rparr>)"
    by simp
  have pre1: "accumulated (configure exampleCalls) False True
      (take 0 (Variables \<lparr>Id' = 7, ErrorStatus = 0, ErrorIndex = 0,
         Variables = [\<lparr>Name = sysName, Value = IntValue 5\<rparr>]\<rparr>)) (123, ''example'')
      = Some ([], (123, ''example''))"
    by simp
  have look1: "getManagedObject (configure exampleCalls)
      (Name (Variables \<lparr>Id' = 7, ErrorStatus = 0, ErrorIndex = 0,
         Variables = [\<lparr>Name = sysName, Value = IntValue 5\<rparr>]\<rparr> ! 0)) False
      = Some \<lparr>oid = sysName, get = nameGetter, set' = nameSetter\<rparr>"
    by (simp add: example_agent getManagedObject_def sysUpTime_def sysName_def)
  have fails1: "if True
      then set' \<lparr>oid = sysName, get = nameGetter, set' = nameSetter\<rparr>
             (oid \<lparr>oid = sysName, get = nameGetter, set' = nameSetter\<rparr>)
             (Value (Variables \<lparr>Id' = 7, ErrorStatus = 0, ErrorIndex = 0,
                Variables = [\<lparr>Name = sysName, Value = IntValue 5\<rparr>]\<rparr> ! 0)) (123, ''example'')
           = (Some (Errorf BadValue ''invalid type'' []), (123, ''example''))
      else get \<lparr>oid = sysName, get = nameGetter, set' = nameSetter\<rparr>
             (oid \<lparr>oid = sysName, get = nameGetter, set' = nameSetter\<rparr>) (123, ''example'')
           = ((NilValue, Some (Errorf BadValue ''invalid type'' [])), (123, ''example''))"
    by (simp add: nameSetter_def)
  have a: "configure [AddRoCall [1, 3] (Some (\<lambda>k s. ((NilValue, Some (fmt_Errorf ''failed'' [])), s)))]
      = \<lparr>handlers = [\<lparr>oid = [1, 3],
                        get = (\<lambda>k s. ((NilValue, Some (fmt_Errorf ''failed'' [])), s :: nat)),
                        set' = notWritableSetter\<rparr>],
         public' = ''public'', private' = ''private''\<rparr>"
    by (simp add: configure_def NewAgent_def AddRoManagedObject_def AddRwManagedObject_def
          getManagedObject_def)
  have k2: "0 < length (Variables \<lparr>Id' = 7, ErrorStatus = 0, ErrorIndex = 0,
         Variables = [\<lparr>Name = [1, 3], Value = NullValue\<rparr>]\<rparr>)"
    by simp
  have pre2: "accumulated
      (configure [AddRoCall [1, 3] (Some (\<lambda>k s. ((NilValue, Some (fmt_Errorf ''failed'' [])), s)))])
      False False
      (take 0 (Variables \<lparr>Id' = 7, ErrorStatus = 0, ErrorIndex = 0,
         Variables = [\<lparr>Name = [1, 3], Value = NullValue\<rparr>]\<rparr>)) (0::nat) = Some ([], 0)"
    by simp
  have look2: "getManagedObject
      (configure [AddRoCall [1, 3] (Some (\<lambda>k s. ((NilValue, Some (fmt_Errorf ''failed'' [])), s)))])
      (Name (Variables \<lparr>Id' = 7, ErrorStatus = 0, ErrorIndex = 0,
         Variables = [\<lparr>Name = [1, 3], Value = NullValue\<rparr>]\<rparr> ! 0)) False
      = Some \<lparr>oid = [1, 3],
               get = (\<lambda>k s. ((NilValue, Some (fmt_Errorf ''failed'' [])), s :: nat)),
               set' = notWritableSetter\<rparr>"
    unfolding a by (simp add: getManagedObject_def)
  have fails2: "if False
      then set' \<lparr>oid = [1, 3],
               get = (\<lambda>k s. ((NilValue, Some (fmt_Errorf ''failed'' [])), s :: nat)),
               set' = notWritableSetter\<rparr>
             (oid \<lparr>oid = [1, 3],
               get = (\<lambda>k s. ((NilValue, Some (fmt_Errorf ''failed'' [])), s :: nat)),
               set' = notWritableSetter\<rparr>)
             (Value (Variables \<lparr>Id' = 7, ErrorStatus = 0, ErrorIndex = 0,
                Variables = [\<lparr>Name = [1, 3], Value = NullValue\<rparr>]\<rparr> ! 0)) 0
           = (Some (fmt_Errorf ''failed'' []), 0)
      else get \<lparr>oid = [1, 3],
               get = (\<lambda>k s. ((NilValue, Some (fmt_Errorf ''failed'' [])), s :: nat)),
               set' = notWritableSetter\<rparr>
             (oid \<lparr>oid = [1, 3],
               get = (\<lambda>k s. ((NilValue, Some (fmt_Errorf ''failed'' [])), s :: nat)),
               set' = notWritableSetter\<rparr>) 0
           = ((NilValue, Some (fmt_Errorf ''failed'' [])), 0)"
    by simp
  from accessor_error_status [OF k1 pre1 look1 fails1]
    accessor_error_status [OF k2 pre2 look2 fails2]
  show ?thesis by (simp add: fmt_Errorf_def Errorf_def)
qed

text \<open>
  C9. Let an object be registered without a setter, by \<open>AddRoManagedObject\<close> or by
  \<open>AddRwManagedObject\<close> with a nil setter, in an agent built by any setup calls, and let
  any further setup calls follow. A Set request under the write community whose first
  \<open>i\<close> bindings succeed and whose next binding names that object is answered with the
  error status \<open>NotWritable\<close>, that is 17, and the error index \<open>i + 1\<close>.
\<close>

theorem set_on_object_without_setter:
  assumes reg: "AddRoManagedObject (configure calls) k (Some g) = (None, a1)
                \<or> AddRwManagedObject (configure calls) k (Some g) None = (None, a1)"
    and later: "a = foldl applyCall a1 later"
    and req: "Version request = 0 \<and> Community request = private' a
              \<and> Pdu request = SetRequestPdu pdu"
    and i: "i < length (Variables pdu) \<and> Name (Variables pdu ! i) = k"
    and pre: "accumulated a False True (take i (Variables pdu)) s = Some (acc, s1)"
  shows "ProcessMessage a request s =
           (Inr (request\<lparr>Pdu := GetResponsePdu
                   (pdu\<lparr>ErrorIndex := int i + 1, ErrorStatus := NotWritable\<rparr>)\<rparr>), s1)"
proof -
  from reg have r: "AddRwManagedObject (configure calls) k (Some g) None = (None, a1)"
    by (simp add: AddRoManagedObject_def)
  have a1: "sorted_wrt Less (handlers a1)
            \<and> \<lparr>oid = k, get = g, set' = notWritableSetter\<rparr> \<in> set (handlers a1)"
    using configure_sorted r by (rule AddRw_without_setter)
  then have sorted: "sorted_wrt Less (handlers a)"
    unfolding later by (simp add: foldl_applyCall_sorted)
  from a1 have "\<lparr>oid = k, get = g, set' = notWritableSetter\<rparr> \<in> set (handlers a)"
    unfolding later by (simp add: foldl_applyCall_keeps)
  then have look: "getManagedObject a (Name (Variables pdu ! i)) False
      = Some \<lparr>oid = k, get = g, set' = notWritableSetter\<rparr>"
    using i by (simp add: getManagedObject_exact [OF sorted])
  have step: "processPduLoop a False True pdu (int i) acc
          (Variables pdu ! i # drop (Suc i) (Variables pdu)) s1
        = (Inl (pdu\<lparr>ErrorIndex := int i + 1, ErrorStatus := NotWritable\<rparr>), s1)"
    using look
    by (simp add: processPduLoop_Cons invoke_def notWritableSetter_def Errorf_def
          del: processPduLoop.simps)
  from i have "i < length (Variables pdu)" by simp
  then have "processPdu a pdu False True s
      = (pdu\<lparr>ErrorIndex := int i + 1, ErrorStatus := NotWritable\<rparr>, s1)"
    using pre step by (rule processPdu_failure)
  with req show ?thesis by (simp add: ProcessMessage_def checkCommunity_def)
qed

theorem set_on_object_without_setter_witness:
  "ProcessMessage (configure exampleCalls)
     \<lparr>Version = 0, Community = ''priv'',
      Pdu = SetRequestPdu \<lparr>Id' = 7, ErrorStatus = 0, ErrorIndex = 0,
              Variables = [\<lparr>Name = sysName, Value = StringValue ''agent''\<rparr>,
                           \<lparr>Name = sysUpTime, Value = IntValue 0\<rparr>]\<rparr>\<rparr> (123, ''example'')
   = (Inr \<lparr>Version = 0, Community = ''priv'',
           Pdu = GetResponsePdu \<lparr>Id' = 7, ErrorStatus = 17, ErrorIndex = 2,
              Variables = [\<lparr>Name = sysName, Value = StringValue ''agent''\<rparr>,
                           \<lparr>Name = sysUpTime, Value = IntValue 0\<rparr>]\<rparr>\<rparr>, (123, ''agent''))"
proof -
  have reg: "AddRoManagedObject (configure [SetCommunitiesCall ''publ'' ''priv'']) sysUpTime
               (Some upTimeGetter)
             = (None, \<lparr>handlers = [\<lparr>oid = sysUpTime, get = upTimeGetter, set' = notWritableSetter\<rparr>],
                       public' = ''publ'', private' = ''priv''\<rparr>)"
    by (simp add: configure_def NewAgent_def SetCommunities_def AddRoManagedObject_def
          AddRwManagedObject_def getManagedObject_def)
  have later: "configure exampleCalls =
      foldl applyCall \<lparr>handlers = [\<lparr>oid = sysUpTime, get = upTimeGetter, set' = notWritableSetter\<rparr>],
                       public' = ''publ'', private' = ''priv''\<rparr>
        [AddRwCall sysName (Some nameGetter) (Some nameSetter)]"
    by (simp add: example_defs)
  have pre: "accumulated (configure exampleCalls) False True
      (take 1 (Variables \<lparr>Id' = 7, ErrorStatus = 0, ErrorIndex = 0,
              Variables = [\<lparr>Name = sysName, Value = StringValue ''agent''\<rparr>,
                           \<lparr>Name = sysUpTime, Value = IntValue 0\<rparr>]\<rparr>)) (123, ''example'')
      = Some ([], (123, ''agent''))"
    by (simp add: example_run)
  have priv: "private' (configure exampleCalls) = ''priv''"
    by (simp add: example_agent)
  from set_on_object_without_setter [of "[SetCommunitiesCall ''publ'' ''priv'']" sysUpTime
      upTimeGetter
      "\<lparr>handlers = [\<lparr>oid = sysUpTime, get = upTimeGetter, set' = notWritableSetter\<rparr>],
        public' = ''publ'', private' = ''priv''\<rparr>"
      "configure exampleCalls" "[AddRwCall sysName (Some nameGetter) (Some nameSetter)]"
      "\<lparr>Version = 0, Community = ''priv'',
        Pdu = SetRequestPdu \<lparr>Id' = 7, ErrorStatus = 0, ErrorIndex = 0,
              Variables = [\<lparr>Name = sysName, Value = StringValue ''agent''\<rparr>,
                           \<lparr>Name = sysUpTime, Value = IntValue 0\<rparr>]\<rparr>\<rparr>"
      "\<lparr>Id' = 7, ErrorStatus = 0, ErrorIndex = 0,
              Variables = [\<lparr>Name = sysName, Value = StringValue ''agent''\<rparr>,
                           \<lparr>Name = sysUpTime, Value = IntValue 0\<rparr>]\<rparr>"
      1 "(123, ''example'')" "[]" "(123, ''agent'')"] reg later pre priv
  show ?thesis by simp
qed

text \<open>
  C10. The response PDU has the identifier of the request PDU: \<open>processPdu\<close> never
  changes it, on success or on failure, and every response of \<open>ProcessMessage\<close> answers a
  Get, a GetNext or a Set with a \<open>GetResponsePdu\<close> of the same identifier.
\<close>

theorem identifier_preserved:
  "Id' (fst (processPdu a pdu next sf s)) = Id' pdu
   \<and> (ProcessMessage a request s = (Inr response, s1) \<longrightarrow>
        (\<exists>p res. (Pdu request = GetRequestPdu p \<or> Pdu request = GetNextRequestPdu p
                    \<or> Pdu request = SetRequestPdu p)
                 \<and> Pdu response = GetResponsePdu res \<and> Id' res = Id' p))"
proof (intro conjI impI)
  show "Id' (fst (processPdu a pdu next sf s)) = Id' pdu" by (rule processPdu_Id)
next
  assume r: "ProcessMessage a request s = (Inr response, s1)"
  then have v: "Version request = 0" by (simp add: ProcessMessage_def split: if_splits)
  obtain rw eo where c: "checkCommunity a (Community request) = (rw, eo)" by (metis surj_pair)
  with r v have eo: "eo = None" by (cases eo) (simp_all add: ProcessMessage_def)
  show "\<exists>p res. (Pdu request = GetRequestPdu p \<or> Pdu request = GetNextRequestPdu p
                    \<or> Pdu request = SetRequestPdu p)
                 \<and> Pdu response = GetResponsePdu res \<and> Id' res = Id' p"
  proof (cases "Pdu request")
    case (GetRequestPdu p)
    with r v c eo have "Pdu response = GetResponsePdu (fst (processPdu a p False False s))"
      by (auto simp: ProcessMessage_def split: prod.splits)
    with GetRequestPdu have "(Pdu request = GetRequestPdu p \<or> Pdu request = GetNextRequestPdu p
          \<or> Pdu request = SetRequestPdu p)
        \<and> Pdu response = GetResponsePdu (fst (processPdu a p False False s))
        \<and> Id' (fst (processPdu a p False False s)) = Id' p"
      by (simp add: processPdu_Id)
    then show ?thesis by (intro exI)
  next
    case (GetNextRequestPdu p)
    with r v c eo have "Pdu response = GetResponsePdu (fst (processPdu a p True False s))"
      by (auto simp: ProcessMessage_def split: prod.splits)
    with GetNextRequestPdu have "(Pdu request = GetRequestPdu p \<or> Pdu request = GetNextRequestPdu p
          \<or> Pdu request = SetRequestPdu p)
        \<and> Pdu response = GetResponsePdu (fst (processPdu a p True False s))
        \<and> Id' (fst (processPdu a p True False s)) = Id' p"
      by (simp add: processPdu_Id)
    then show ?thesis by (intro exI)
  next
    case (SetRequestPdu p)
    with r v c eo have "Pdu response = GetResponsePdu (fst (processPdu a p False True s))
        \<or> Pdu response = GetResponsePdu (p\<lparr>ErrorIndex := 1, ErrorStatus := NoSuchName\<rparr>)"
      by (auto simp: ProcessMessage_def split: prod.splits if_splits)
    then obtain res where "Pdu response = GetResponsePdu res" and "Id' res = Id' p"
      using processPdu_Id [of a p False True s] by auto
    with SetRequestPdu have "(Pdu request = GetRequestPdu p \<or> Pdu request = GetNextRequestPdu p
          \<or> Pdu request = SetRequestPdu p)
        \<and> Pdu response = GetResponsePdu res \<and> Id' res = Id' p"
      by simp
    then show ?thesis by (intro exI)
  qed (use r v c eo in \<open>simp_all add: ProcessMessage_def\<close>)
qed

theorem identifier_preserved_witness:
  "\<exists>p res. (Pdu \<lparr>Version = 0, Community = ''publ'',
                  Pdu = GetRequestPdu \<lparr>Id' = 7, ErrorStatus = 0, ErrorIndex = 0,
                          Variables = [\<lparr>Name = sysUpTime, Value = NullValue\<rparr>]\<rparr>\<rparr> = GetRequestPdu p
             \<or> Pdu \<lparr>Version = 0, Community = ''publ'',
                  Pdu = GetRequestPdu \<lparr>Id' = 7, ErrorStatus = 0, ErrorIndex = 0,
                          Variables = [\<lparr>Name = sysUpTime, Value = NullValue\<rparr>]\<rparr>\<rparr> = GetNextRequestPdu p
             \<or> Pdu \<lparr>Version = 0, Community = ''publ'',
                  Pdu = GetRequestPdu \<lparr>Id' = 7, ErrorStatus = 0, ErrorIndex = 0,
                          Variables = [\<lparr>Name = sysUpTime, Value = NullValue\<rparr>]\<rparr>\<rparr> = SetRequestPdu p)
      \<and> Pdu \<lparr>Version = 0, Community = ''publ'',
              Pdu = GetResponsePdu \<lparr>Id' = 7, ErrorStatus = 0, ErrorIndex = 0,
                      Variables = [\<lparr>Name = sysUpTime, Value = IntValue 123\<rparr>]\<rparr>\<rparr> = GetResponsePdu res
      \<and> Id' res = Id' p"
proof -
  have r: "ProcessMessage (configure exampleCalls)
      \<lparr>Version = 0, Community = ''publ'',
       Pdu = GetRequestPdu \<lparr>Id' = 7, ErrorStatus = 0, ErrorIndex = 0,
               Variables = [\<lparr>Name = sysUpTime, Value = NullValue\<rparr>]\<rparr>\<rparr> (123, ''example'')
    = (Inr \<lparr>Version = 0, Community = ''publ'',
            Pdu = GetResponsePdu \<lparr>Id' = 7, ErrorStatus = 0, ErrorIndex = 0,
                    Variables = [\<lparr>Name = sysUpTime, Value = IntValue 123\<rparr>]\<rparr>\<rparr>, (123, ''example''))"
    by (simp add: ProcessMessage_def checkCommunity_def processPdu_def example_run)
  from identifier_preserved [of "configure exampleCalls"
      "\<lparr>Id' = 7, ErrorStatus = 0, ErrorIndex = 0,
        Variables = [\<lparr>Name = sysUpTime, Value = NullValue\<rparr>]\<rparr>" False False "(123, ''example'')"
      "\<lparr>Version = 0, Community = ''publ'',
       Pdu = GetRequestPdu \<lparr>Id' = 7, ErrorStatus = 0, ErrorIndex = 0,
               Variables = [\<lparr>Name = sysUpTime, Value = NullValue\<rparr>]\<rparr>\<rparr>"
      "\<lparr>Version = 0, Community = ''publ'',
            Pdu = GetResponsePdu \<lparr>Id' = 7, ErrorStatus = 0, ErrorIndex = 0,
                    Variables = [\<lparr>Name = sysUpTime, Value = IntValue 123\<rparr>]\<rparr>\<rparr>"
      "(123, ''example'')"] r
  show ?thesis by simp
qed

section \<open>Access control and the gates of the dispatcher\<close>

text \<open>
  C6. The community check fails exactly when the string is neither the read community
  nor the write community. A string equal to the write community gives \<open>rw = True\<close>, one
  equal to the read community only gives \<open>rw = False\<close>. The comparison is equality of
  strings, so a difference of case or a proper prefix is a mismatch. On a failed check
  \<open>ProcessMessage\<close> returns an error and no response, whatever the version and the PDU.
\<close>

theorem community_check:
  "(snd (checkCommunity a c) \<noteq> None) = (c \<noteq> public' a \<and> c \<noteq> private' a)
   \<and> (c = private' a \<longrightarrow> checkCommunity a c = (True, None))
   \<and> (c = public' a \<and> c \<noteq> private' a \<longrightarrow> checkCommunity a c = (False, None))
   \<and> (c \<noteq> public' a \<and> c \<noteq> private' a \<longrightarrow>
        (\<exists>e. ProcessMessage a \<lparr>Version = v, Community = c, Pdu = p\<rparr> s = (Inl e, s)))"
  by (simp add: checkCommunity_def ProcessMessage_def)

theorem community_check_witness:
  "checkCommunity (SetCommunities (NewAgent :: nat Agent) ''publ'' ''priv'') ''priv'' = (True, None)
   \<and> checkCommunity (SetCommunities (NewAgent :: nat Agent) ''publ'' ''priv'') ''publ''
       = (False, None)
   \<and> snd (checkCommunity (SetCommunities (NewAgent :: nat Agent) ''publ'' ''priv'') ''Publ'')
       \<noteq> None
   \<and> snd (checkCommunity (SetCommunities (NewAgent :: nat Agent) ''publ'' ''priv'') ''pub'')
       \<noteq> None
   \<and> (\<exists>e. ProcessMessage (SetCommunities (NewAgent :: nat Agent) ''publ'' ''priv'')
          \<lparr>Version = 0, Community = ''Publ'',
           Pdu = GetRequestPdu \<lparr>Id' = 1, ErrorStatus = 0, ErrorIndex = 0, Variables = []\<rparr>\<rparr>
          (0::nat) = (Inl e, 0))"
  using
    community_check [of "SetCommunities (NewAgent :: nat Agent) ''publ'' ''priv''" "''priv''"
      0 NilPdu "0::nat"]
    community_check [of "SetCommunities (NewAgent :: nat Agent) ''publ'' ''priv''" "''publ''"
      0 NilPdu "0::nat"]
    community_check [of "SetCommunities (NewAgent :: nat Agent) ''publ'' ''priv''" "''Publ''"
      0 "GetRequestPdu \<lparr>Id' = 1, ErrorStatus = 0, ErrorIndex = 0, Variables = []\<rparr>" "0::nat"]
    community_check [of "SetCommunities (NewAgent :: nat Agent) ''publ'' ''priv''" "''pub''"
      0 NilPdu "0::nat"]
  by (simp add: SetCommunities_def NewAgent_def)

text \<open>
  C7. A request whose version is not supported is rejected at once: \<open>ProcessMessage\<close>
  returns an error and no response, and \<open>ProcessDatagram\<close> an error and no bytes, for
  every version other than 0. The earlier \<open>ProcessDatagram0\<close> does the same for every
  version other than the two it admits, 0 and 1. The outside state is untouched.
\<close>

theorem version_gate:
  "(Version request \<noteq> 0 \<longrightarrow>
      (\<exists>e. ProcessMessage a request s = (Inl e, s))
      \<and> (decode requestBytes = Inr (request, remaining) \<longrightarrow>
           (\<exists>e. ProcessDatagram decode encode a requestBytes s = (Inl e, s))))
   \<and> (Version request \<noteq> 0 \<and> Version request \<noteq> 1
        \<and> decode requestBytes = Inr (request, remaining) \<longrightarrow>
          (\<exists>e. ProcessDatagram0 decode encode a requestBytes s = (Inl e, s)))"
  by (simp add: ProcessMessage_def ProcessDatagram_def ProcessDatagram0_def decodeMessage_def)

theorem version_gate_witness:
  "(\<exists>e. ProcessMessage (NewAgent :: nat Agent) \<lparr>Version = 1, Community = ''public'', Pdu = GetRequestPdu \<lparr>Id' = 1, ErrorStatus = 0, ErrorIndex = 0, Variables = []\<rparr>\<rparr> (0::nat) = (Inl e, 0))
  \<and> (\<exists>e. ProcessDatagram (\<lambda>bs. Inr (\<lparr>Version = 1, Community = ''public'', Pdu = GetRequestPdu \<lparr>Id' = 1, ErrorStatus = 0, ErrorIndex = 0, Variables = []\<rparr>\<rparr>, [])) (\<lambda>m. Inr []) (NewAgent :: nat Agent) [] (0::nat) = (Inl e, 0))
  \<and> (\<exists>e. ProcessDatagram0 (\<lambda>bs. Inr (\<lparr>Version = 3, Community = ''public'', Pdu = GetRequestPdu \<lparr>Id' = 1, ErrorStatus = 0, ErrorIndex = 0, Variables = []\<rparr>\<rparr>, [])) (\<lambda>m. Inr []) (NewAgent :: nat Agent) [] (0::nat) = (Inl e, 0))"
  using version_gate [of "\<lparr>Version = 1, Community = ''public'', Pdu = GetRequestPdu \<lparr>Id' = 1, ErrorStatus = 0, ErrorIndex = 0, Variables = []\<rparr>\<rparr>" "NewAgent :: nat Agent" "0::nat" "\<lambda>bs. Inr (\<lparr>Version = 1, Community = ''public'', Pdu = GetRequestPdu \<lparr>Id' = 1, ErrorStatus = 0, ErrorIndex = 0, Variables = []\<rparr>\<rparr>, [])" "[]" "[]" "\<lambda>m. Inr []"]
  version_gate [of "\<lparr>Version = 3, Community = ''public'', Pdu = GetRequestPdu \<lparr>Id' = 1, ErrorStatus = 0, ErrorIndex = 0, Variables = []\<rparr>\<rparr>" "NewAgent :: nat Agent" "0::nat" "\<lambda>bs. Inr (\<lparr>Version = 3, Community = ''public'', Pdu = GetRequestPdu \<lparr>Id' = 1, ErrorStatus = 0, ErrorIndex = 0, Variables = []\<rparr>\<rparr>, [])" "[]" "[]" "\<lambda>m. Inr []"]
  by simp

text \<open>
  The two admitted versions of \<open>ProcessDatagram0\<close> are both served: a request of
  version 1 with the default read community gets a response.
\<close>

lemma ProcessDatagram0_version_1:
  "ProcessDatagram0
     (\<lambda>bs. Inr (\<lparr>Version = 1, Community = ''public'',
                 Pdu = GetRequestPdu \<lparr>Id' = 1, ErrorStatus = 0, ErrorIndex = 0,
                         Variables = []\<rparr>\<rparr>, []))
     (\<lambda>m. Inr []) (NewAgent :: nat Agent) [] (0::nat) = (Inr [], 0)"
  by (simp add: ProcessDatagram0_def decodeMessage_def encodeMessage_def checkCommunity_def
        NewAgent_def processPdu_def)

text \<open>
  C5. A Set request that passes the version gate under a community that only allows
  reading is answered with \<open>NoSuchName\<close> and error index 1. The answer is the same for
  every registry \<open>hs\<close> the agent might hold, so no lookup and no accessor takes part in
  it, and the outside state is returned as it was.
\<close>

theorem set_under_read_community:
  "Version request = 0 \<Longrightarrow> checkCommunity a (Community request) = (False, None) \<Longrightarrow>
   Pdu request = SetRequestPdu pdu \<Longrightarrow>
     ProcessMessage (a\<lparr>handlers := hs\<rparr>) request s =
       (Inr (request\<lparr>Pdu := GetResponsePdu (pdu\<lparr>ErrorIndex := 1, ErrorStatus := 2\<rparr>)\<rparr>), s)"
  by (simp add: ProcessMessage_def checkCommunity_def split: if_splits)

theorem set_under_read_community_witness:
  "ProcessMessage ((NewAgent :: nat Agent)\<lparr>handlers := [\<lparr>oid = [1,3], get = (\<lambda>k s. ((IntValue 1, None), Suc s)), set' = (\<lambda>k x s. (None, Suc s))\<rparr>]\<rparr>)
     \<lparr>Version = 0, Community = ''public'', Pdu = SetRequestPdu \<lparr>Id' = 9, ErrorStatus = 0, ErrorIndex = 0, Variables = [\<lparr>Name = [1,3], Value = IntValue 5\<rparr>]\<rparr>\<rparr> (0::nat)
   = (Inr \<lparr>Version = 0, Community = ''public'', Pdu = GetResponsePdu \<lparr>Id' = 9, ErrorStatus = 2, ErrorIndex = 1, Variables = [\<lparr>Name = [1,3], Value = IntValue 5\<rparr>]\<rparr>\<rparr>, 0)"
  using set_under_read_community [of "\<lparr>Version = 0, Community = ''public'', Pdu = SetRequestPdu \<lparr>Id' = 9, ErrorStatus = 0, ErrorIndex = 0, Variables = [\<lparr>Name = [1,3], Value = IntValue 5\<rparr>]\<rparr>\<rparr>"
     "NewAgent :: nat Agent" "\<lparr>Id' = 9, ErrorStatus = 0, ErrorIndex = 0, Variables = [\<lparr>Name = [1,3], Value = IntValue 5\<rparr>]\<rparr>"
     "[\<lparr>oid = [1,3], get = (\<lambda>k s. ((IntValue 1, None), Suc s)), set' = (\<lambda>k x s. (None, Suc s))\<rparr>]" "0::nat"]
  by (simp add: checkCommunity_def NewAgent_def)

end
